theory Spec2Isabelle
  imports Main "HOL-Library.Word" "HOL-Library.Multiset"
begin

unbundle bit_operations_syntax

section \<open>JavaScript arithmetic used by the chapters\<close>

text \<open>
  The chapters compute on integers, held in two types. A \<open>BigInt\<close> is an \<open>int\<close>: its
  arithmetic is exact. A \<open>number\<close> is a double: the integers it can hold are those with
  at most 53 significant bits, and every integer result of \<open>+\<close>, \<open>*\<close> or \<open>Number(...)\<close>
  is rounded to the nearest of them, the tie going to the even significand, and to an
  infinity from \<open>2 ^ 1024\<close> on. An argument of type \<open>number\<close> is an \<open>int\<close> here (the
  integer it holds); a result that can leave the integers is a \<open>js_number\<close>.

  The remainder operator \<open>%\<close> truncates towards zero: the result has the sign of the
  dividend. It is exact on numbers too. On numbers a zero divisor gives \<open>NaN\<close>; on
  BigInts it throws a \<open>RangeError\<close>, as does \<open>**\<close> with a negative exponent.
\<close>

datatype js_error = RangeError

datatype js_number = Finite int | PosInfinity | NegInfinity | NaN

definition js_rem :: "int \<Rightarrow> int \<Rightarrow> int" where
  "js_rem a n = sgn a * (\<bar>a\<bar> mod \<bar>n\<bar>)"

text \<open>The number of binary digits of a positive integer.\<close>

function bit_length :: "int \<Rightarrow> nat" where
  "bit_length m = (if m \<le> 0 then 0 else Suc (bit_length (m div 2)))"
  by pat_completeness auto
termination
  by (relation "measure nat") auto

declare bit_length.simps [simp del]

text \<open>
  Rounding an integer to 53 significant bits: with \<open>k\<close> bits too many, the low \<open>k\<close> bits
  \<open>r\<close> are dropped and the rest \<open>q\<close> goes up by one when \<open>r\<close> is above the half, or is
  the half and \<open>q\<close> is odd.
\<close>

definition round_double :: "int \<Rightarrow> int" where
  "round_double z =
     (let m = \<bar>z\<bar> in
      if m < 2 ^ 53 then z
      else
        let k = bit_length m - 53;
            q = m div 2 ^ k;
            r = m mod 2 ^ k;
            half = 2 ^ (k - 1);
            q' = (if half < r \<or> (r = half \<and> odd q) then q + 1 else q)
        in sgn z * (q' * 2 ^ k))"

text \<open>
  \<open>Number(z)\<close> for a BigInt \<open>z\<close>; the same rounding gives the result of \<open>+\<close> and \<open>*\<close>
  on numbers from the exact integer result.
\<close>

definition Number :: "int \<Rightarrow> js_number" where
  "Number z =
     (let r = round_double z in
      if 2 ^ 1024 \<le> r then PosInfinity
      else if r \<le> - (2 ^ 1024) then NegInfinity
      else Finite r)"

text \<open>
  \<open>a % p\<close>, \<open>a + p\<close> and \<open>a * x\<close> for a number \<open>a\<close> and a number \<open>p\<close> or \<open>x\<close> holding
  an integer. A remainder of an infinity or of \<open>NaN\<close> is \<open>NaN\<close>.
\<close>

definition num_rem :: "js_number \<Rightarrow> int \<Rightarrow> js_number" where
  "num_rem a p =
     (case a of Finite v \<Rightarrow> (if p = 0 then NaN else Finite (js_rem v p)) | _ \<Rightarrow> NaN)"

definition num_add :: "js_number \<Rightarrow> int \<Rightarrow> js_number" where
  "num_add a p = (case a of Finite v \<Rightarrow> Number (v + p) | other \<Rightarrow> other)"

definition num_mul :: "js_number \<Rightarrow> int \<Rightarrow> js_number" where
  "num_mul a x =
     (case a of
        Finite v \<Rightarrow> Number (v * x)
      | NaN \<Rightarrow> NaN
      | PosInfinity \<Rightarrow> (if 0 < x then PosInfinity else if x < 0 then NegInfinity else NaN)
      | NegInfinity \<Rightarrow> (if 0 < x then NegInfinity else if x < 0 then PosInfinity else NaN))"

definition bigint_rem :: "int \<Rightarrow> int \<Rightarrow> js_error + int" where
  "bigint_rem a n = (if n = 0 then Inl RangeError else Inr (js_rem a n))"

definition bigint_pow :: "int \<Rightarrow> int \<Rightarrow> js_error + int" where
  "bigint_pow b e = (if e < 0 then Inl RangeError else Inr (b ^ nat e))"

text \<open>\<open>b ** e % n\<close> on BigInts: the power is taken first, then the remainder.\<close>

definition bigint_pow_rem :: "int \<Rightarrow> int \<Rightarrow> int \<Rightarrow> js_error + int" where
  "bigint_pow_rem b e n =
     (case bigint_pow b e of Inl err \<Rightarrow> Inl err | Inr pw \<Rightarrow> bigint_rem pw n)"

section \<open>Modular arithmetic (modulo, modularExponentiation)\<close>


definition modularExponentiation :: "int \<Rightarrow> int \<Rightarrow> int \<Rightarrow> js_error + js_number" where
  "modularExponentiation base exponent modulus =
     (case bigint_pow_rem base exponent modulus of
        Inl err \<Rightarrow> Inl err
      | Inr result \<Rightarrow> Inr (Number result))"

section \<open>Diffie-Hellman exchange\<close>

text \<open>
  Here and in the RSA functions below every argument is a \<open>number\<close>. The remainder is
  then smaller in magnitude than a double, the modulus, so \<open>Number(...)\<close> of it is finite:
  it is \<open>round_double\<close> of the remainder, and the results stay integers.
\<close>

record dh_result =
  alicePublicKey :: int
  bobPublicKey :: int
  sharedSecretAlice :: int
  sharedSecretBob :: int

definition diffieHellmanExchange :: "int \<Rightarrow> int \<Rightarrow> int \<Rightarrow> int \<Rightarrow> js_error + dh_result" where
  "diffieHellmanExchange p g a b =
     (case bigint_pow_rem g a p of Inl err \<Rightarrow> Inl err | Inr alicePub \<Rightarrow>
      case bigint_pow_rem g b p of Inl err \<Rightarrow> Inl err | Inr bobPub \<Rightarrow>
      case bigint_pow_rem bobPub a p of Inl err \<Rightarrow> Inl err | Inr secretAlice \<Rightarrow>
      case bigint_pow_rem alicePub b p of Inl err \<Rightarrow> Inl err | Inr secretBob \<Rightarrow>
        Inr \<lparr>alicePublicKey = round_double alicePub, bobPublicKey = round_double bobPub,
             sharedSecretAlice = round_double secretAlice,
             sharedSecretBob = round_double secretBob\<rparr>)"

section \<open>RSA with small numbers (chapters 2 and 11)\<close>

text \<open>
  Both chapters declare the same two interfaces: a public key \<open>{e, n}\<close> and a private
  key \<open>{d, n}\<close>. The field names are prefixed here, since \<open>e\<close>, \<open>d\<close> and \<open>n\<close> are
  wanted as variables.
\<close>

record PublicKey =
  pub_e :: int
  pub_n :: int

record PrivateKey =
  priv_d :: int
  priv_n :: int

text \<open>Chapter 2: every number is fixed in the function body.\<close>

definition generateAsymmetricKeyPair :: "PublicKey \<times> PrivateKey" where
  "generateAsymmetricKeyPair =
     (let p = 17; q = 19;
          n = p * q;
          phi_n = (p - 1) * (q - 1);
          e = 13;
          d = 221
      in (\<lparr>pub_e = e, pub_n = n\<rparr>, \<lparr>priv_d = d, priv_n = n\<rparr>))"

definition encryptAsymmetric :: "int \<Rightarrow> PublicKey \<Rightarrow> js_error + int" where
  "encryptAsymmetric message publicKey =
     (case bigint_pow_rem message (pub_e publicKey) (pub_n publicKey) of
        Inl err \<Rightarrow> Inl err
      | Inr c \<Rightarrow> Inr (round_double c))"

definition decryptAsymmetric :: "int \<Rightarrow> PrivateKey \<Rightarrow> js_error + int" where
  "decryptAsymmetric ciphertext privateKey =
     (case bigint_pow_rem ciphertext (priv_d privateKey) (priv_n privateKey) of
        Inl err \<Rightarrow> Inl err
      | Inr m \<Rightarrow> Inr (round_double m))"

text \<open>Chapter 11: the primes are parameters, the two exponents are fixed.\<close>

definition generateRSAKeyPair :: "int \<Rightarrow> int \<Rightarrow> PublicKey \<times> PrivateKey" where
  "generateRSAKeyPair p q =
     (let n = p * q;
          phi_n = (p - 1) * (q - 1);
          e = 17;
          d = 2753
      in (\<lparr>pub_e = e, pub_n = n\<rparr>, \<lparr>priv_d = d, priv_n = n\<rparr>))"

definition encryptRSA :: "int \<Rightarrow> PublicKey \<Rightarrow> js_error + int" where
  "encryptRSA message publicKey =
     (case bigint_pow_rem message (pub_e publicKey) (pub_n publicKey) of
        Inl err \<Rightarrow> Inl err
      | Inr c \<Rightarrow> Inr (round_double c))"

definition decryptRSA :: "int \<Rightarrow> PrivateKey \<Rightarrow> js_error + int" where
  "decryptRSA ciphertext privateKey =
     (case bigint_pow_rem ciphertext (priv_d privateKey) (priv_n privateKey) of
        Inl err \<Rightarrow> Inl err
      | Inr m \<Rightarrow> Inr (round_double m))"

section \<open>Elliptic curve over a small prime field\<close>

text \<open>
  \<open>modularInverse\<close> works on numbers. It first brings its argument into \<open>[0, p)\<close> by
  \<open>((n % p) + p) % p\<close>, where the sum is rounded and, for \<open>p = 0\<close>, the result is
  \<open>NaN\<close>. It then searches \<open>x = 1, 2, ...\<close> below \<open>p\<close> for \<open>(n * x) % p === 1\<close>, where
  the product is rounded, and returns \<open>0\<close> when the search ends without a hit. The counter
  is a number as well: \<open>x++\<close> is \<open>x + 1\<close> rounded, which is \<open>x\<close> again at \<open>2 ^ 53\<close>, so
  for a modulus above \<open>2 ^ 53\<close> the loop may never end. The result is \<open>None\<close> when the
  function does not return.
\<close>

partial_function (option) modularInverse_loop :: "js_number \<Rightarrow> int \<Rightarrow> int \<Rightarrow> int option" where
  "modularInverse_loop n p x =
     (if x < p then
        (if num_rem (num_mul n x) p = Finite 1 then Some x
         else modularInverse_loop n p (round_double (x + 1)))
      else Some 0)"

declare modularInverse_loop.simps [code]

definition modularInverse :: "int \<Rightarrow> int \<Rightarrow> int option" where
  "modularInverse n p =
     modularInverse_loop (num_rem (num_add (num_rem (Finite n) p) p) p) p 1"

text \<open>
  A point has two nullable coordinates; the point at infinity has both \<open>null\<close>. The
  fields \<open>x\<close> and \<open>y\<close> of the interface are \<open>px\<close> and \<open>py\<close> here. Arithmetic on a
  \<open>null\<close> coordinate reads it as \<open>0\<close>, which is what \<open>num\<close> does. The coordinates and
  the arithmetic of \<open>addPoints\<close> itself are on \<open>int\<close>, which is what the source computes
  as long as the coordinates are below the prime \<open>23\<close>. The result is \<open>None\<close> when the
  call of \<open>modularInverse\<close> does not return.
\<close>

record Point =
  px :: "int option"
  py :: "int option"

definition num :: "int option \<Rightarrow> int" where
  "num v = (case v of None \<Rightarrow> 0 | Some k \<Rightarrow> k)"

text \<open>The curve \<open>y\<^sup>2 = x\<^sup>3 + x + 1 (mod 23)\<close> with base point \<open>G\<close> and identity \<open>O\<close>.\<close>

definition ec_p :: int where "ec_p = 23"
definition ec_a :: int where "ec_a = 1"
definition ec_b :: int where "ec_b = 1"
definition ec_G :: Point where "ec_G = \<lparr>px = Some 1, py = Some 7\<rparr>"
definition ec_O :: Point where "ec_O = \<lparr>px = None, py = None\<rparr>"

definition addPoints :: "Point \<Rightarrow> Point \<Rightarrow> Point option" where
  "addPoints P Q =
     (if px P = None then Some Q
      else if px Q = None then Some P
      else
        let slope =
              (if px P = px Q \<and> py P = py Q then
                 (let numerator = 3 * num (px P) * num (px P) + ec_a;
                      denominator = 2 * num (py P)
                  in map_option (\<lambda>d_inv. js_rem (numerator * d_inv) ec_p)
                       (modularInverse denominator ec_p))
               else
                 (let numerator = num (py Q) - num (py P);
                      denominator = num (px Q) - num (px P)
                  in map_option (\<lambda>d_inv. js_rem (numerator * d_inv) ec_p)
                       (modularInverse denominator ec_p)))
        in case slope of
             None \<Rightarrow> None
           | Some slope \<Rightarrow>
               (let xR = js_rem (slope * slope - num (px P) - num (px Q)) ec_p;
                    yR = js_rem (slope * (num (px P) - xR) - num (py P)) ec_p;
                    finalX = js_rem (js_rem xR ec_p + ec_p) ec_p;
                    finalY = js_rem (js_rem yR ec_p + ec_p) ec_p
                in Some \<lparr>px = Some finalX, py = Some finalY\<rparr>))"

text \<open>Membership in the curve, for stating which inputs are points of the curve.\<close>

definition onCurve :: "Point \<Rightarrow> bool" where
  "onCurve P =
     (case (px P, py P) of
        (Some u, Some v) \<Rightarrow>
          0 \<le> u \<and> u < ec_p \<and> 0 \<le> v \<and> v < ec_p \<and>
          (v * v) mod ec_p = (u * u * u + ec_a * u + ec_b) mod ec_p
      | _ \<Rightarrow> False)"

section \<open>XOR cipher on strings (chapter 2)\<close>

text \<open>
  A JavaScript string is a sequence of 16-bit code units. \<open>charCodeAt\<close> returns the unit
  as a number, or \<open>NaN\<close> (\<open>None\<close>) outside the string; \<open>^\<close> converts both operands with
  ToInt32, which maps \<open>NaN\<close> to \<open>0\<close>; \<open>String.fromCharCode\<close> keeps the low 16 bits.
  For an empty key the index \<open>i % 0\<close> is \<open>NaN\<close>, read as position \<open>0\<close>, which is outside
  the empty string: \<open>charCodeAt key (i mod 0)\<close> is \<open>None\<close> as well.
\<close>

type_synonym js_string = "16 word list"

definition charCodeAt :: "js_string \<Rightarrow> nat \<Rightarrow> int option" where
  "charCodeAt s i = (if i < length s then Some (uint (s ! i)) else None)"

definition toInt32 :: "int option \<Rightarrow> int" where
  "toInt32 v = (case v of None \<Rightarrow> 0 | Some k \<Rightarrow> signed_take_bit 31 k)"

definition js_xor :: "int option \<Rightarrow> int option \<Rightarrow> int" where
  "js_xor u v = toInt32 u XOR toInt32 v"

definition fromCharCode :: "int \<Rightarrow> 16 word" where
  "fromCharCode k = word_of_int k"

function encryptSymmetric_loop :: "js_string \<Rightarrow> js_string \<Rightarrow> nat \<Rightarrow> js_string \<Rightarrow> js_string" where
  "encryptSymmetric_loop message key i ciphertext =
     (if i < length message then
        encryptSymmetric_loop message key (i + 1)
          (ciphertext @
             [fromCharCode (js_xor (charCodeAt message i) (charCodeAt key (i mod length key)))])
      else ciphertext)"
  by pat_completeness auto
termination
  by (relation "measure (\<lambda>(message, key, i, ciphertext). length message - i)") auto

declare encryptSymmetric_loop.simps [simp del]

definition encryptSymmetric :: "js_string \<Rightarrow> js_string \<Rightarrow> js_string" where
  "encryptSymmetric message key = encryptSymmetric_loop message key 0 []"

definition decryptSymmetric :: "js_string \<Rightarrow> js_string \<Rightarrow> js_string" where
  "decryptSymmetric ciphertext key = encryptSymmetric ciphertext key"

section \<open>Shuffle (chapter 13)\<close>

text \<open>
  \<open>crypto.randomInt(m)\<close> returns some integer in \<open>[0, m)\<close>. One run of the shuffle calls
  it once for each \<open>m = i + 1\<close>, so the outcomes of a run are given by a function
  \<open>randomInt\<close> of \<open>m\<close>. The swap reads both cells before it writes them. The loop starts
  at \<open>length - 1\<close>; for the empty array that is \<open>-1\<close> in the source and \<open>0\<close> here, and
  the loop body does not run in either case. A write at an index beyond the array would
  extend it in JavaScript; \<open>randomInt (i + 1) \<le> i\<close> rules that out.
\<close>

function yatesShuffle_loop :: "(nat \<Rightarrow> nat) \<Rightarrow> nat \<Rightarrow> 'a list \<Rightarrow> 'a list" where
  "yatesShuffle_loop randomInt i array =
     (if 0 < i then
        (let j = randomInt (i + 1);
             at_j = array ! j;
             at_i = array ! i
         in yatesShuffle_loop randomInt (i - 1) (array[i := at_j, j := at_i]))
      else array)"
  by pat_completeness auto
termination
  by (relation "measure (\<lambda>(randomInt, i, array). i)") auto

declare yatesShuffle_loop.simps [simp del]

definition yatesShuffle :: "(nat \<Rightarrow> nat) \<Rightarrow> 'a list \<Rightarrow> 'a list" where
  "yatesShuffle randomInt array = yatesShuffle_loop randomInt (length array - 1) array"


section \<open>Facts about the remainder and the rounding\<close>

lemma js_rem_nonneg: "0 \<le> a \<Longrightarrow> 0 < n \<Longrightarrow> js_rem a n = a mod n"
  by (cases "a = 0") (simp_all add: js_rem_def)

lemma js_rem_neg: "a < 0 \<Longrightarrow> js_rem a n = - ((- a) mod \<bar>n\<bar>)"
  by (simp add: js_rem_def)

lemma js_rem_bounds: "0 < p \<Longrightarrow> - p < js_rem n p \<and> js_rem n p < p"
proof (cases "0 \<le> n")
  case True
  assume p: "0 < p"
  have a: "0 \<le> n mod p" and b: "n mod p < p" using p by simp_all
  from a b p have "- p < n mod p \<and> n mod p < p" by linarith
  then show ?thesis by (simp only: js_rem_nonneg [OF True p])
next
  case False
  assume p: "0 < p"
  from False have eq: "js_rem n p = - ((- n) mod p)" using p by (simp add: js_rem_neg)
  have a: "0 \<le> (- n) mod p" and b: "(- n) mod p < p" using p by simp_all
  from a b p have "- p < - ((- n) mod p) \<and> - ((- n) mod p) < p" by linarith
  then show ?thesis by (simp only: eq)
qed

lemma bigint_pow_rem_nonneg:
  "0 \<le> b \<Longrightarrow> 0 \<le> e \<Longrightarrow> 0 < n \<Longrightarrow> bigint_pow_rem b e n = Inr (b ^ nat e mod n)"
  by (simp add: bigint_pow_rem_def bigint_pow_def bigint_rem_def js_rem_nonneg)

lemmas pow_rem_defs = bigint_pow_rem_def bigint_pow_def bigint_rem_def js_rem_def

lemma js_rem_norm: "0 < p \<Longrightarrow> js_rem (js_rem n p + p) p = n mod p"
proof (cases "0 \<le> n")
  case True
  assume "0 < p"
  with True show ?thesis
    by (simp add: js_rem_nonneg)
next
  case False
  assume p: "0 < p"
  from False have n: "n < 0" by simp
  have r: "js_rem n p = - ((- n) mod p)" using n p by (simp add: js_rem_neg)
  have b: "0 \<le> (- n) mod p" "(- n) mod p < p" using p by simp_all
  then have "0 \<le> js_rem n p + p" using r by simp
  then have "js_rem (js_rem n p + p) p = (js_rem n p + p) mod p"
    using p by (simp add: js_rem_nonneg)
  also have "\<dots> = (- ((- n) mod p)) mod p" using r by simp
  also have "\<dots> = n mod p" by (simp add: mod_minus_eq)
  finally show ?thesis .
qed

text \<open>Below \<open>2 ^ 53\<close> nothing is rounded.\<close>

lemma round_double_exact: "\<bar>z\<bar> < 2 ^ 53 \<Longrightarrow> round_double z = z"
  by (simp add: round_double_def)

lemma Number_exact:
  assumes "\<bar>z\<bar> < 2 ^ 53"
  shows "Number z = Finite z"
proof -
  have "(2::int) ^ 53 < 2 ^ 1024" by simp
  with assms have "z < 2 ^ 1024" "- (2 ^ 1024) < z" by linarith+
  then show ?thesis using assms by (simp add: Number_def round_double_exact)
qed

lemma square_bound:
  fixes p :: int
  assumes "p * p \<le> 2 ^ 53" "1 < p"
  shows "2 * p \<le> 2 ^ 53"
proof -
  from assms(2) have "2 * p \<le> p * p" by (intro mult_right_mono) simp_all
  with assms(1) show ?thesis by linarith
qed

section \<open>The search for a modular inverse\<close>

text \<open>
  While \<open>p * p \<le> 2 ^ 53\<close> every sum, product and increment of \<open>modularInverse\<close> is
  exact, and the loop ends at \<open>x = p\<close> at the latest.
\<close>

lemma modularInverse_norm:
  assumes "p * p \<le> 2 ^ 53" "1 < p"
  shows "num_rem (num_add (num_rem (Finite n) p) p) p = Finite (n mod p)"
proof -
  from assms(2) have pos: "0 < p" by simp
  from js_rem_bounds [OF pos, of n] have "0 < js_rem n p + p" "js_rem n p + p < 2 * p"
    by simp_all
  with square_bound [OF assms] have "\<bar>js_rem n p + p\<bar> < 2 ^ 53" by linarith
  then have "Number (js_rem n p + p) = Finite (js_rem n p + p)" by (rule Number_exact)
  with pos show ?thesis by (simp add: num_rem_def num_add_def js_rem_norm)
qed

lemma modularInverse_test:
  assumes "p * p \<le> 2 ^ 53" "0 \<le> m" "m < p" "0 \<le> x" "x < p"
  shows "num_rem (num_mul (Finite m) x) p = Finite ((m * x) mod p)"
proof -
  from assms have pos: "0 < p" by simp
  have "m * x < p * p" using assms by (intro mult_strict_mono') simp_all
  moreover have "0 \<le> m * x" using assms by simp
  ultimately have "\<bar>m * x\<bar> < 2 ^ 53" using assms(1) by linarith
  then have "Number (m * x) = Finite (m * x)" by (rule Number_exact)
  with pos \<open>0 \<le> m * x\<close> show ?thesis
    by (simp add: num_rem_def num_mul_def js_rem_nonneg)
qed

lemma modularInverse_incr:
  assumes "p * p \<le> 2 ^ 53" "0 \<le> x" "x < p"
  shows "round_double (x + 1) = x + 1"
proof (cases "1 < p")
  case True
  from square_bound [OF assms(1) True] assms have "\<bar>x + 1\<bar> < 2 ^ 53" by linarith
  then show ?thesis by (rule round_double_exact)
next
  case False
  with assms have "x = 0" by simp
  then show ?thesis by (simp add: round_double_exact)
qed

lemma modularInverse_loop_none:
  assumes "p * p \<le> 2 ^ 53" "0 \<le> m" "m < p" "0 \<le> x"
    and "\<And>y. x \<le> y \<Longrightarrow> y < p \<Longrightarrow> (m * y) mod p \<noteq> 1"
  shows "modularInverse_loop (Finite m) p x = Some 0"
  using assms(4,5)
proof (induction "nat (p - x)" arbitrary: x)
  case 0
  then have "\<not> x < p" by simp
  then show ?case by (subst modularInverse_loop.simps) simp
next
  case (Suc k)
  then have xp: "x < p" by linarith
  have test: "num_rem (num_mul (Finite m) x) p = Finite ((m * x) mod p)"
    using assms(1,2,3) Suc.prems(1) xp by (rule modularInverse_test)
  have incr: "round_double (x + 1) = x + 1"
    using assms(1) Suc.prems(1) xp by (rule modularInverse_incr)
  have nohit: "(m * x) mod p \<noteq> 1" using Suc.prems(2) [of x] xp by simp
  have "modularInverse_loop (Finite m) p (x + 1) = Some 0"
  proof (rule Suc.hyps(1))
    show "k = nat (p - (x + 1))" using Suc.hyps(2) by linarith
    show "0 \<le> x + 1" using Suc.prems(1) by simp
    show "(m * y) mod p \<noteq> 1" if "x + 1 \<le> y" "y < p" for y
      using Suc.prems(2) [of y] that by simp
  qed
  with xp test incr nohit show ?case
    by (subst modularInverse_loop.simps) simp
qed

lemma modularInverse_loop_hit:
  assumes "p * p \<le> 2 ^ 53" "0 \<le> m" "m < p" "0 \<le> x"
    and "x \<le> y" "y < p" "(m * y) mod p = 1"
  shows "\<exists>r. modularInverse_loop (Finite m) p x = Some r \<and> x \<le> r \<and> r \<le> y \<and>
              (m * r) mod p = 1"
  using assms(4,5)
proof (induction "nat (y - x)" arbitrary: x)
  case 0
  then have xy: "x = y" by simp
  with assms(6) have xp: "x < p" by simp
  have "num_rem (num_mul (Finite m) x) p = Finite ((m * x) mod p)"
    using assms(1,2,3) "0.prems"(1) xp by (rule modularInverse_test)
  with xp xy assms(7) have "modularInverse_loop (Finite m) p x = Some x"
    by (subst modularInverse_loop.simps) simp
  with xy assms(7) show ?case by simp
next
  case (Suc k)
  then have xy: "x < y" by linarith
  with assms(6) have xp: "x < p" by simp
  have test: "num_rem (num_mul (Finite m) x) p = Finite ((m * x) mod p)"
    using assms(1,2,3) Suc.prems(1) xp by (rule modularInverse_test)
  have incr: "round_double (x + 1) = x + 1"
    using assms(1) Suc.prems(1) xp by (rule modularInverse_incr)
  show ?case
  proof (cases "(m * x) mod p = 1")
    case True
    with xp test have "modularInverse_loop (Finite m) p x = Some x"
      by (subst modularInverse_loop.simps) simp
    with True xy show ?thesis by simp
  next
    case False
    have "\<exists>r. modularInverse_loop (Finite m) p (x + 1) = Some r \<and> x + 1 \<le> r \<and> r \<le> y \<and>
              (m * r) mod p = 1"
    proof (rule Suc.hyps(1))
      show "k = nat (y - (x + 1))" using Suc.hyps(2) by linarith
      show "0 \<le> x + 1" using Suc.prems(1) by simp
      show "x + 1 \<le> y" using xy by simp
    qed
    then obtain r where r: "modularInverse_loop (Finite m) p (x + 1) = Some r"
      "x + 1 \<le> r" "r \<le> y" "(m * r) mod p = 1" by blast
    from xp test incr False r(1) have "modularInverse_loop (Finite m) p x = Some r"
      by (subst modularInverse_loop.simps) simp
    with r show ?thesis by simp
  qed
qed

lemma coprime_inverse_exists:
  fixes a n :: int
  assumes "gcd a n = 1" "1 < n"
  shows "\<exists>y. 1 \<le> y \<and> y < n \<and> (a mod n * y) mod n = 1"
proof -
  obtain u v where uv: "u * a + v * n = 1"
    using bezout_int [of a n] assms(1) by auto
  let ?y = "u mod n"
  have "(a mod n * ?y) mod n = (a * u) mod n" by (simp add: mod_mult_eq)
  also have "a * u = 1 - v * n" using uv by (simp add: algebra_simps)
  also have "(1 - v * n) mod n = 1 mod n" by (simp add: mod_diff_right_eq [symmetric])
  also have "\<dots> = 1" using assms(2) by simp
  finally have h: "(a mod n * ?y) mod n = 1" .
  have "?y \<noteq> 0" using h by auto
  moreover have "0 \<le> ?y" "?y < n" using assms(2) by simp_all
  ultimately show ?thesis using h by (intro exI [of _ ?y]) simp
qed

lemma inverse_unique:
  fixes a n d d' :: int
  assumes "0 < n" "(a * d) mod n = 1 mod n" "(a * d') mod n = 1 mod n"
    "0 \<le> d" "d < n" "0 \<le> d'" "d' < n"
  shows "d = d'"
proof -
  have "d mod n = (d * 1) mod n" by simp
  also have "\<dots> = (d * (1 mod n)) mod n" by (simp add: mod_mult_right_eq)
  also have "\<dots> = (d * ((a * d') mod n)) mod n" using assms(3) by simp
  also have "\<dots> = (d * (a * d')) mod n" by (simp add: mod_mult_right_eq)
  also have "\<dots> = (d' * (a * d)) mod n" by (simp add: mult_ac)
  also have "\<dots> = (d' * ((a * d) mod n)) mod n" by (simp add: mod_mult_right_eq)
  also have "\<dots> = (d' * (1 mod n)) mod n" using assms(2) by simp
  also have "\<dots> = d' mod n" by (simp add: mod_mult_right_eq)
  finally show ?thesis using assms by simp
qed

lemma modularInverse_coprime:
  assumes "gcd a n = 1" "1 < n" "n * n \<le> 2 ^ 53"
  shows "\<exists>d. modularInverse a n = Some d \<and> 1 \<le> d \<and> d < n \<and> (a * d) mod n = 1"
proof -
  from assms have pos: "0 < n" by simp
  obtain y where y: "1 \<le> y" "y < n" "(a mod n * y) mod n = 1"
    using coprime_inverse_exists [OF assms(1,2)] by blast
  have m: "0 \<le> a mod n" "a mod n < n" using pos by simp_all
  have "(0::int) \<le> 1" by simp
  from modularInverse_loop_hit [OF assms(3) m this y]
  obtain r where r: "modularInverse_loop (Finite (a mod n)) n 1 = Some r"
    "1 \<le> r" "r \<le> y" "(a mod n * r) mod n = 1" by blast
  from r(4) have "(a * r) mod n = 1" by (simp add: mod_mult_left_eq)
  moreover have "modularInverse a n = Some r"
    using r(1) by (simp add: modularInverse_def modularInverse_norm [OF assms(3,2)])
  ultimately show ?thesis using r y by auto
qed

lemma modularInverse_le_1: "p \<le> 1 \<Longrightarrow> modularInverse n p = Some 0"
  unfolding modularInverse_def by (subst modularInverse_loop.simps) simp

text \<open>With such a modulus the function returns, whatever its argument.\<close>

lemma modularInverse_returns:
  assumes "p * p \<le> 2 ^ 53"
  shows "\<exists>d. modularInverse n p = Some d"
proof (cases "1 < p")
  case False
  then show ?thesis by (simp add: modularInverse_le_1)
next
  case True
  then have m: "0 \<le> n mod p" "n mod p < p" by simp_all
  show ?thesis
  proof (cases "\<exists>y. 1 \<le> y \<and> y < p \<and> (n mod p * y) mod p = 1")
    case True
    then obtain y where y: "1 \<le> y" "y < p" "(n mod p * y) mod p = 1" by blast
    have "(0::int) \<le> 1" by simp
    from modularInverse_loop_hit [OF assms m this y] \<open>1 < p\<close> show ?thesis
      by (auto simp: modularInverse_def modularInverse_norm [OF assms])
  next
    case False
    have "modularInverse_loop (Finite (n mod p)) p 1 = Some 0"
      using assms m False by (intro modularInverse_loop_none) auto
    with \<open>1 < p\<close> show ?thesis
      by (simp add: modularInverse_def modularInverse_norm [OF assms])
  qed
qed

lemma addPoints_returns: "\<exists>R. addPoints P Q = Some R"
proof (cases "px P = None \<or> px Q = None")
  case True
  then show ?thesis by (auto simp: addPoints_def)
next
  case False
  have small: "ec_p * ec_p \<le> 2 ^ 53" by (simp add: ec_p_def)
  obtain d1 where d1: "modularInverse (2 * num (py P)) ec_p = Some d1"
    using modularInverse_returns [OF small] by blast
  obtain d2 where d2: "modularInverse (num (px Q) - num (px P)) ec_p = Some d2"
    using modularInverse_returns [OF small] by blast
  from False d1 d2 show ?thesis by (auto simp: addPoints_def Let_def)
qed

section \<open>Greatest common divisors of the large examples\<close>

lemma bezout_coprime:
  fixes a n u v :: int
  assumes "u * a + v * n = 1"
  shows "gcd a n = 1"
proof -
  have "gcd a n dvd u * a" "gcd a n dvd v * n" by simp_all
  then have "gcd a n dvd u * a + v * n" by (rule dvd_add)
  with assms have "gcd a n dvd 1" by simp
  then show ?thesis by simp
qed

lemma common_divisor_not_coprime:
  fixes a n g :: int
  assumes "g dvd a" "g dvd n" "1 < g"
  shows "gcd a n \<noteq> 1"
proof
  assume "gcd a n = 1"
  moreover from assms(1,2) have "g dvd gcd a n" by (rule gcd_greatest)
  ultimately have "g dvd 1" by simp
  then have "\<bar>g\<bar> = 1" by simp
  with assms(3) show False by simp
qed

section \<open>The XOR cipher, unit by unit\<close>

lemma toInt32_code_unit: "toInt32 (Some (uint (w :: 16 word))) = uint w"
proof -
  have nonneg: "0 \<le> uint w" by simp
  have "- (2 ^ 31) \<le> (0 :: int)" by simp
  with nonneg have lower: "- (2 ^ 31) \<le> uint w" by (rule order_trans [rotated])
  have "uint w < 2 ^ 16" using uint_lt2p [of w] by simp
  also have "(2 :: int) ^ 16 < 2 ^ 31" by simp
  finally have upper: "uint w < 2 ^ 31" .
  from lower upper have "signed_take_bit 31 (uint w) = uint w"
    by (rule signed_take_bit_int_eq_self)
  then show ?thesis by (simp add: toInt32_def)
qed

lemma xor_code_units:
  "fromCharCode (js_xor (Some (uint a)) (Some (uint b))) = a XOR b"
proof -
  have "word_of_int (uint a XOR uint b) = (word_of_int (uint (a XOR b)) :: 16 word)"
    by (simp add: uint_xor)
  then show ?thesis by (simp add: fromCharCode_def js_xor_def toInt32_code_unit)
qed

lemma encryptSymmetric_loop_eq:
  "encryptSymmetric_loop m k i c =
   c @ map (\<lambda>j. fromCharCode (js_xor (charCodeAt m j) (charCodeAt k (j mod length k)))) [i..<length m]"
proof (induction m k i c rule: encryptSymmetric_loop.induct)
  case (1 message key i ciphertext)
  show ?case
  proof (cases "i < length message")
    case True
    from "1.IH" [OF True] True show ?thesis
      by (simp add: encryptSymmetric_loop.simps [of message key i] upt_conv_Cons)
  next
    case False
    then show ?thesis by (simp add: encryptSymmetric_loop.simps [of message key i])
  qed
qed

lemma length_encryptSymmetric: "length (encryptSymmetric m k) = length m"
  by (simp add: encryptSymmetric_def encryptSymmetric_loop_eq)

lemma nth_encryptSymmetric:
  assumes "k \<noteq> []" "j < length m"
  shows "encryptSymmetric m k ! j = m ! j XOR k ! (j mod length k)"
proof -
  have "j mod length k < length k" using assms(1) by simp
  then show ?thesis using assms(2)
    by (simp add: encryptSymmetric_def encryptSymmetric_loop_eq charCodeAt_def xor_code_units)
qed

section \<open>The shuffle loop\<close>

lemma yatesShuffle_loop_perm:
  "i < length xs \<Longrightarrow> (\<And>t. 0 < t \<Longrightarrow> t \<le> i \<Longrightarrow> r (t + 1) \<le> t) \<Longrightarrow>
   length (yatesShuffle_loop r i xs) = length xs \<and> mset (yatesShuffle_loop r i xs) = mset xs"
proof (induction r i xs rule: yatesShuffle_loop.induct)
  case (1 randomInt i array)
  show ?case
  proof (cases "0 < i")
    case True
    let ?j = "randomInt (i + 1)"
    let ?swapped = "array[i := array ! ?j, ?j := array ! i]"
    have j: "?j \<le> i" using "1.prems"(2) [of i] True by simp
    then have jl: "?j < length array" using "1.prems"(1) by simp
    have sw: "length ?swapped = length array" "mset ?swapped = mset array"
      using mset_swap [OF jl "1.prems"(1)] by simp_all
    have "length (yatesShuffle_loop randomInt (i - 1) ?swapped) = length ?swapped \<and>
          mset (yatesShuffle_loop randomInt (i - 1) ?swapped) = mset ?swapped"
    proof (rule "1.IH" [OF True refl refl refl])
      show "i - 1 < length ?swapped" using "1.prems"(1) by simp
    next
      fix t assume "0 < t" "t \<le> i - 1"
      then show "randomInt (t + 1) \<le> t" using "1.prems"(2) [of t] by simp
    qed
    with sw True show ?thesis
      by (simp add: yatesShuffle_loop.simps [of randomInt i array] Let_def)
  next
    case False
    then show ?thesis by (simp add: yatesShuffle_loop.simps [of randomInt 0 array])
  qed
qed


section \<open>The chapter 11 key pair of the example\<close>

text \<open>
  For the primes \<open>61\<close> and \<open>53\<close> of the example the fixed exponents fit:
  \<open>17 * 2753 = 46801 = 1 + 780 * 60 = 1 + 900 * 52\<close>. Fermat's little theorem is needed
  for these two primes only, and is checked residue by residue.
\<close>

lemma residues_61: "\<forall>r\<in>{1..60::int}. ((r ^ 4 mod 61) ^ 5 mod 61) ^ 3 mod 61 = 1"
  by code_simp

lemma residues_53: "\<forall>r\<in>{1..52::int}. ((r ^ 4 mod 53) ^ 13 mod 53) mod 53 = 1"
  by code_simp

lemma fermat_61:
  fixes m :: int
  assumes "\<not> 61 dvd m"
  shows "m ^ 60 mod 61 = 1"
proof -
  let ?r = "m mod 61"
  have "?r \<noteq> 0" using assms by (simp add: dvd_eq_mod_eq_0)
  then have "?r \<in> {1..60}" by simp presburger
  with residues_61 have "((?r ^ 4 mod 61) ^ 5 mod 61) ^ 3 mod 61 = 1" by blast
  then have "((m ^ 4) ^ 5) ^ 3 mod 61 = 1" by (simp add: power_mod)
  then show ?thesis by (simp add: power_mult [symmetric])
qed

lemma fermat_53:
  fixes m :: int
  assumes "\<not> 53 dvd m"
  shows "m ^ 52 mod 53 = 1"
proof -
  let ?r = "m mod 53"
  have "?r \<noteq> 0" using assms by (simp add: dvd_eq_mod_eq_0)
  then have "?r \<in> {1..52}" by simp presburger
  with residues_53 have "((?r ^ 4 mod 53) ^ 13 mod 53) mod 53 = 1" by blast
  then have "(m ^ 4) ^ 13 mod 53 = 1" by (simp add: power_mod)
  then show ?thesis by (simp add: power_mult [symmetric])
qed

lemma pow_cycle:
  fixes m q :: int
  assumes q: "1 < q" and unit: "\<not> q dvd m \<Longrightarrow> m ^ t mod q = 1"
  shows "m ^ (t * k + 1) mod q = m mod q"
proof (cases "q dvd m")
  case True
  then have "q dvd m ^ (t * k + 1)" by (simp add: dvd_mult)
  with True show ?thesis by (simp add: mod_eq_0_iff_dvd)
next
  case False
  have "m ^ (t * k + 1) = m ^ (t * k) * m" by (simp only: power_add power_one_right)
  also have "\<dots> = (m ^ t) ^ k * m" by (simp only: power_mult)
  finally have "m ^ (t * k + 1) mod q = ((m ^ t) ^ k * m) mod q" by (rule arg_cong)
  also have "\<dots> = ((m ^ t mod q) ^ k mod q * (m mod q)) mod q"
    by (simp add: mod_mult_eq power_mod)
  also have "\<dots> = m mod q" using unit [OF False] q by simp
  finally show ?thesis .
qed

lemma rsa_3233_cycle:
  fixes m :: int
  shows "m ^ 46801 mod 3233 = m mod 3233"
proof -
  have a: "m ^ 46801 mod 61 = m mod 61"
    using pow_cycle [of 61 m 60 780] fermat_61 [of m] by simp
  have b: "m ^ 46801 mod 53 = m mod 53"
    using pow_cycle [of 53 m 52 900] fermat_53 [of m] by simp
  from a have a': "61 dvd m ^ 46801 - m" by (simp add: mod_eq_dvd_iff)
  from b have b': "53 dvd m ^ 46801 - m" by (simp add: mod_eq_dvd_iff)
  have "coprime (61::int) 53" by (simp add: coprime_iff_gcd_eq_1) code_simp
  with a' b' have "61 * 53 dvd m ^ 46801 - m" by (rule divides_mult)
  then have "3233 dvd m ^ 46801 - m" by simp
  then show ?thesis by (simp add: mod_eq_dvd_iff)
qed

lemma rsa_chapter11_roundtrip:
  assumes "0 \<le> M" "M < 3233"
  shows "encryptRSA M (fst (generateRSAKeyPair 61 53)) = Inr (M ^ 17 mod 3233)"
    and "decryptRSA (M ^ 17 mod 3233) (snd (generateRSAKeyPair 61 53)) = Inr M"
proof -
  have keys: "generateRSAKeyPair 61 53 =
      (\<lparr>pub_e = 17, pub_n = 3233\<rparr>, \<lparr>priv_d = 2753, priv_n = 3233\<rparr>)"
    by (simp add: generateRSAKeyPair_def)
  have small: "round_double k = k" if "0 \<le> k" "k < 3233" for k
    using that by (simp add: round_double_def)
  have c: "0 \<le> M ^ 17 mod 3233" "M ^ 17 mod 3233 < 3233" by simp_all
  show "encryptRSA M (fst (generateRSAKeyPair 61 53)) = Inr (M ^ 17 mod 3233)"
    using assms bigint_pow_rem_nonneg [of M 17 3233] small [OF c]
    by (simp add: encryptRSA_def keys)
  have "(M ^ 17 mod 3233) ^ 2753 mod 3233 = (M ^ 17) ^ 2753 mod 3233"
    by (simp add: power_mod)
  also have "\<dots> = M ^ 46801 mod 3233" by (simp add: power_mult [symmetric])
  also have "\<dots> = M" using assms by (simp add: rsa_3233_cycle)
  finally have recovered: "(M ^ 17 mod 3233) ^ 2753 mod 3233 = M" .
  with c(1) bigint_pow_rem_nonneg [of "M ^ 17 mod 3233" 2753 3233] small [OF assms]
  show "decryptRSA (M ^ 17 mod 3233) (snd (generateRSAKeyPair 61 53)) = Inr M"
    by (simp add: decryptRSA_def keys)
qed

section \<open>Claims\<close>

text \<open>
  C4, as the code has it. For every base \<open>\<ge> 0\<close>, exponent \<open>\<ge> 0\<close> and modulus
  \<open>n > 0\<close>, \<open>modularExponentiation\<close> returns \<open>Number(base ^ exponent mod n)\<close>. When
  \<open>n \<le> 2 ^ 53\<close> that is \<open>base ^ exponent mod n\<close> itself, a value in \<open>[0, n)\<close>; with
  exponent \<open>0\<close> it is \<open>1 mod n\<close> for any base, and with base \<open>0\<close> and a positive
  exponent it is \<open>0\<close>. In particular \<open>modPow(5, 6, 23) = 8\<close>, \<open>modPow(0, 0, 23) = 1\<close>
  and \<open>modPow(7, 1, 1) = 0\<close>.
\<close>

theorem modularExponentiation_contract:
  "0 \<le> base \<Longrightarrow> 0 \<le> exponent \<Longrightarrow> 0 < n \<Longrightarrow>
   modularExponentiation base exponent n = Inr (Number (base ^ nat exponent mod n)) \<and>
   (n \<le> 2 ^ 53 \<longrightarrow>
      (\<exists>r. modularExponentiation base exponent n = Inr (Finite r) \<and>
           r = base ^ nat exponent mod n \<and> 0 \<le> r \<and> r < n) \<and>
      modularExponentiation base 0 n = Inr (Finite (1 mod n)) \<and>
      (0 < exponent \<longrightarrow> modularExponentiation 0 exponent n = Inr (Finite 0))) \<and>
   modularExponentiation 5 6 23 = Inr (Finite 8) \<and>
   modularExponentiation 0 0 23 = Inr (Finite 1) \<and>
   modularExponentiation 7 1 1 = Inr (Finite 0)"
proof -
  assume b: "0 \<le> base" and e: "0 \<le> exponent" and n: "0 < n"
  have general: "modularExponentiation base exponent n =
      Inr (Number (base ^ nat exponent mod n))"
    using b e n by (simp add: modularExponentiation_def bigint_pow_rem_nonneg)
  have exact: "Number (k mod n) = Finite (k mod n)" if "n \<le> 2 ^ 53" for k
  proof -
    have "0 \<le> k mod n" "k mod n < n" using n by simp_all
    with that have "\<bar>k mod n\<bar> < 2 ^ 53" by linarith
    then show ?thesis by (rule Number_exact)
  qed
  have range: "0 \<le> base ^ nat exponent mod n" "base ^ nat exponent mod n < n"
    using n by simp_all
  have zero_exp: "modularExponentiation base 0 n = Inr (Number (1 mod n))"
    using b n bigint_pow_rem_nonneg [of base 0 n] by (simp add: modularExponentiation_def)
  have zero_base: "modularExponentiation 0 exponent n = Inr (Number (0 mod n))"
    if pos: "0 < exponent"
  proof -
    from pos have "0 < nat exponent" by simp
    then have "(0::int) ^ nat exponent = 0" by (simp add: power_0_left)
    with pos n bigint_pow_rem_nonneg [of 0 exponent n] show ?thesis
      by (simp add: modularExponentiation_def)
  qed
  have bounded: "n \<le> 2 ^ 53 \<longrightarrow>
      (\<exists>r. modularExponentiation base exponent n = Inr (Finite r) \<and>
           r = base ^ nat exponent mod n \<and> 0 \<le> r \<and> r < n) \<and>
      modularExponentiation base 0 n = Inr (Finite (1 mod n)) \<and>
      (0 < exponent \<longrightarrow> modularExponentiation 0 exponent n = Inr (Finite 0))"
  proof
    assume le: "n \<le> 2 ^ 53"
    from general range exact [OF le, of "base ^ nat exponent"]
    have "\<exists>r. modularExponentiation base exponent n = Inr (Finite r) \<and>
           r = base ^ nat exponent mod n \<and> 0 \<le> r \<and> r < n" by simp
    moreover from zero_exp exact [OF le, of 1]
    have "modularExponentiation base 0 n = Inr (Finite (1 mod n))" by simp
    moreover from zero_base exact [OF le, of 0]
    have "0 < exponent \<longrightarrow> modularExponentiation 0 exponent n = Inr (Finite 0)" by simp
    ultimately show "(\<exists>r. modularExponentiation base exponent n = Inr (Finite r) \<and>
           r = base ^ nat exponent mod n \<and> 0 \<le> r \<and> r < n) \<and>
      modularExponentiation base 0 n = Inr (Finite (1 mod n)) \<and>
      (0 < exponent \<longrightarrow> modularExponentiation 0 exponent n = Inr (Finite 0))" by blast
  qed
  have c1: "modularExponentiation 5 6 23 = Inr (Finite 8)" by code_simp
  have c2: "modularExponentiation 0 0 23 = Inr (Finite 1)" by code_simp
  have c3: "modularExponentiation 7 1 1 = Inr (Finite 0)" by code_simp
  from general bounded c1 c2 c3 show ?thesis by blast
qed

theorem modularExponentiation_contract_witness:
  "(0::int) \<le> 5 \<and> (0::int) \<le> 15 \<and> (0::int) < 23 \<and> (23::int) \<le> 2 ^ 53 \<and>
   modularExponentiation 5 15 23 = Inr (Finite 19) \<and>
   modularExponentiation 5 0 23 = Inr (Finite 1) \<and>
   modularExponentiation 0 15 23 = Inr (Finite 0)"
  using modularExponentiation_contract [of 5 15 23] by (simp add: Number_def round_double_def)

text \<open>
  C4, as stated, fails for a modulus above \<open>2 ^ 53\<close>: \<open>3 ^ 40 mod 2 ^ 70\<close> is
  \<open>12157665459056928801\<close>, and \<open>modularExponentiation(3, 40, 2 ^ 70)\<close> returns the
  double \<open>12157665459056928768\<close>. The result can also leave \<open>[0, n)\<close>: with
  \<open>n = 2 ^ 53 + 4\<close> the remainder \<open>2 ^ 53 + 3\<close> is rounded to \<open>n\<close>.
\<close>

theorem modularExponentiation_rounded_counterexample:
  "modularExponentiation 3 40 (2 ^ 70) = Inr (Finite 12157665459056928768) \<and>
   (3::int) ^ 40 mod 2 ^ 70 = 12157665459056928801 \<and>
   modularExponentiation 9007199254740995 1 9007199254740996 = Inr (Finite 9007199254740996)"
  by code_simp

text \<open>
  C5. With \<open>p = 23\<close>, \<open>g = 5\<close>, \<open>a = 6\<close> and \<open>b = 15\<close> the exchange gives Alice's
  public key \<open>8\<close>, Bob's public key \<open>19\<close>, and the same shared secret \<open>2\<close> on both
  sides.
\<close>

theorem diffieHellmanExchange_example:
  "diffieHellmanExchange 23 5 6 15 =
     Inr \<lparr>alicePublicKey = 8, bobPublicKey = 19, sharedSecretAlice = 2, sharedSecretBob = 2\<rparr>"
  by (simp add: diffieHellmanExchange_def pow_rem_defs round_double_def)

text \<open>
  C9. For every message and every non-empty key, decrypting the encryption with the same
  key gives the message back: the XOR cipher is its own inverse.
\<close>

theorem xor_cipher_involution:
  "key \<noteq> [] \<Longrightarrow> decryptSymmetric (encryptSymmetric message key) key = message"
proof (rule nth_equalityI)
  show "length (decryptSymmetric (encryptSymmetric message key) key) = length message"
    by (simp add: decryptSymmetric_def length_encryptSymmetric)
next
  fix j
  assume k: "key \<noteq> []"
    and "j < length (decryptSymmetric (encryptSymmetric message key) key)"
  then have j: "j < length message"
    by (simp add: decryptSymmetric_def length_encryptSymmetric)
  then have "j < length (encryptSymmetric message key)"
    by (simp add: length_encryptSymmetric)
  from nth_encryptSymmetric [OF k this] nth_encryptSymmetric [OF k j]
  show "decryptSymmetric (encryptSymmetric message key) key ! j = message ! j"
    by (simp add: decryptSymmetric_def xor.assoc)
qed

theorem xor_cipher_involution_witness:
  "[1, 2, 3] \<noteq> ([] :: js_string) \<and>
   decryptSymmetric (encryptSymmetric [72, 105, 33, 0] [1, 2, 3]) [1, 2, 3] = [72, 105, 33, 0]"
  using xor_cipher_involution [of "[1, 2, 3]" "[72, 105, 33, 0]"] by simp

text \<open>
  C10. Whatever index \<open>j\<close> with \<open>0 \<le> j \<le> i\<close> the random source returns at each step
  \<open>i\<close>, the shuffled array has the length and the multiset of elements of the input:
  the shuffle only reorders.
\<close>

theorem yatesShuffle_permutes:
  "\<forall>i. 0 < i \<and> i < length array \<longrightarrow> randomInt (i + 1) \<le> i \<Longrightarrow>
   length (yatesShuffle randomInt array) = length array \<and>
   mset (yatesShuffle randomInt array) = mset array"
proof (cases "array = []")
  case True
  then show ?thesis by (simp add: yatesShuffle_def yatesShuffle_loop.simps [of randomInt 0])
next
  case False
  assume h: "\<forall>i. 0 < i \<and> i < length array \<longrightarrow> randomInt (i + 1) \<le> i"
  from False have "length array - 1 < length array" by simp
  then show ?thesis unfolding yatesShuffle_def
  proof (rule yatesShuffle_loop_perm)
    fix t assume "0 < t" "t \<le> length array - 1"
    with False h show "randomInt (t + 1) \<le> t" by simp
  qed
qed

theorem yatesShuffle_permutes_witness:
  "length (yatesShuffle (\<lambda>m. m div 2) [10, 20, 30 :: nat]) = 3 \<and>
   mset (yatesShuffle (\<lambda>m. m div 2) [10, 20, 30 :: nat]) = mset [10, 20, 30]"
proof -
  have "(i + 1) div 2 \<le> i" if "0 < i" for i :: nat
    using that by presburger
  then have h: "\<forall>i. 0 < i \<and> i < length [10, 20, 30 :: nat] \<longrightarrow> (\<lambda>m. m div 2) (i + 1) \<le> i"
    by blast
  from yatesShuffle_permutes [OF h] show ?thesis by simp
qed




text \<open>
  C7, as the code has it. When \<open>gcd(a, n) \<noteq> 1\<close> and \<open>n * n \<le> 2 ^ 53\<close>, so that the
  products of the search are exact, \<open>modularInverse\<close> finds nothing and returns the
  number \<open>0\<close>; no error is raised.
\<close>

theorem modularInverse_not_coprime:
  "gcd a n \<noteq> 1 \<Longrightarrow> n * n \<le> 2 ^ 53 \<Longrightarrow> modularInverse a n = Some 0"
proof (cases "n \<le> 1")
  case True
  then show ?thesis by (rule modularInverse_le_1)
next
  case False
  assume g: "gcd a n \<noteq> 1" and small: "n * n \<le> 2 ^ 53"
  from False have big: "1 < n" by simp
  then have pos: "0 < n" by simp
  have m: "0 \<le> a mod n" "a mod n < n" using pos by simp_all
  have "(0::int) \<le> 1" by simp
  with small m have "modularInverse_loop (Finite (a mod n)) n 1 = Some 0"
  proof (rule modularInverse_loop_none)
    fix y :: int
    assume y: "1 \<le> y" "y < n"
    show "(a mod n * y) mod n \<noteq> 1"
    proof
      assume "(a mod n * y) mod n = 1"
      then have m: "(a * y) mod n = 1" by (simp add: mod_mult_left_eq)
      have "gcd a n dvd a * y" by simp
      moreover have "gcd a n dvd n" by simp
      ultimately have "gcd a n dvd (a * y) mod n" by (simp add: dvd_mod)
      with m have "gcd a n dvd 1" by simp
      then have "gcd a n = 1" by simp
      with g show False by simp
    qed
  qed
  then show ?thesis by (simp add: modularInverse_def modularInverse_norm [OF small big])
qed

theorem modularInverse_not_coprime_witness:
  "gcd (2::int) 4 \<noteq> 1 \<and> (4::int) * 4 \<le> 2 ^ 53 \<and> modularInverse 2 4 = Some 0"
proof -
  have h: "gcd (2::int) 4 \<noteq> 1" by code_simp
  have small: "(4::int) * 4 \<le> 2 ^ 53" by simp
  from modularInverse_not_coprime [OF h small] h small show ?thesis by simp
qed

text \<open>
  C7, as stated, fails: \<open>gcd(2, 4) = 2\<close>, and \<open>modularInverse(2, 4)\<close> returns the
  number \<open>0\<close> to its caller. With larger numbers the value need not be \<open>0\<close>:
  \<open>3602879701896399\<close> and \<open>6004799503160665\<close> have the common divisor
  \<open>1200959900632133\<close>, and the product at \<open>x = 5\<close>, \<open>2 ^ 54 + 11\<close>, is rounded to
  \<open>2 ^ 54 + 12\<close>, which leaves the remainder \<open>1\<close>: the function returns \<open>5\<close>.
\<close>

theorem modularInverse_2_4_counterexample:
  "gcd (2::int) 4 = 2 \<and> modularInverse 2 4 = Some 0 \<and>
   gcd (3602879701896399::int) 6004799503160665 \<noteq> 1 \<and>
   modularInverse 3602879701896399 6004799503160665 = Some 5"
proof -
  have a: "gcd (2::int) 4 = 2 \<and> modularInverse 2 4 = Some 0" by code_simp
  have "(1200959900632133::int) dvd 3602879701896399" by simp
  moreover have "(1200959900632133::int) dvd 6004799503160665" by simp
  moreover have "(1::int) < 1200959900632133" by simp
  ultimately have b: "gcd (3602879701896399::int) 6004799503160665 \<noteq> 1"
    by (rule common_divisor_not_coprime)
  have c: "modularInverse 3602879701896399 6004799503160665 = Some 5" by code_simp
  from a b c show ?thesis by simp
qed

text \<open>
  C2, as the code has it. For every \<open>a\<close> and every modulus \<open>n \<ge> 1\<close> with
  \<open>gcd(a, n) = 1\<close> and \<open>n * n \<le> 2 ^ 53\<close>, so that the products of the search are
  exact, \<open>modularInverse(a, n)\<close> returns the one \<open>d\<close> in \<open>[0, n)\<close> with
  \<open>a * d \<equiv> 1 (mod n)\<close>. In particular \<open>modularInverse(13, 288) = 133\<close>.
\<close>

theorem modularInverse_coprime_inverse:
  "gcd a n = 1 \<Longrightarrow> 0 < n \<Longrightarrow> n * n \<le> 2 ^ 53 \<Longrightarrow>
   (\<exists>d. modularInverse a n = Some d \<and> 0 \<le> d \<and> d < n \<and> (a * d) mod n = 1 mod n \<and>
        (\<forall>d'. 0 \<le> d' \<and> d' < n \<and> (a * d') mod n = 1 mod n \<longrightarrow> d' = d)) \<and>
   modularInverse 13 288 = Some 133"
proof -
  assume g: "gcd a n = 1" and pos: "0 < n" and small: "n * n \<le> 2 ^ 53"
  have "\<exists>d. modularInverse a n = Some d \<and> 0 \<le> d \<and> d < n \<and> (a * d) mod n = 1 mod n"
  proof (cases "n = 1")
    case True
    then show ?thesis by (simp add: modularInverse_le_1)
  next
    case False
    with pos have "1 < n" by simp
    from modularInverse_coprime [OF g this small] this show ?thesis by auto
  qed
  then obtain d where d: "modularInverse a n = Some d" "0 \<le> d" "d < n"
    "(a * d) mod n = 1 mod n" by blast
  have "d' = d" if "0 \<le> d' \<and> d' < n \<and> (a * d') mod n = 1 mod n" for d'
    using that d pos by (intro inverse_unique [of n a d' d]) simp_all
  with d have inv: "\<exists>d. modularInverse a n = Some d \<and> 0 \<le> d \<and> d < n \<and>
      (a * d) mod n = 1 mod n \<and>
      (\<forall>d'. 0 \<le> d' \<and> d' < n \<and> (a * d') mod n = 1 mod n \<longrightarrow> d' = d)" by blast
  have ex: "modularInverse 13 288 = Some 133" by code_simp
  from inv ex show ?thesis by blast
qed

theorem modularInverse_coprime_inverse_witness:
  "gcd (13::int) 288 = 1 \<and> (0::int) < 288 \<and> (288::int) * 288 \<le> 2 ^ 53 \<and>
   modularInverse 13 288 = Some 133 \<and> (13 * 133) mod 288 = (1::int)"
proof -
  have g: "gcd (13::int) 288 = 1" by code_simp
  have pos: "(0::int) < 288" by simp
  have small: "(288::int) * 288 \<le> 2 ^ 53" by simp
  from modularInverse_coprime_inverse [OF g pos small] g show ?thesis by simp
qed

text \<open>
  C2, as stated, fails. Its example is wrong: \<open>modularInverse(13, 288)\<close> is \<open>133\<close>, not
  \<open>221\<close>, and \<open>221 * 13 mod 288\<close> is \<open>281\<close>, not \<open>1\<close>. And with larger numbers the
  value need not be an inverse: \<open>3002399751580331\<close> is coprime to \<open>2 ^ 53 - 1\<close>, the
  product at \<open>x = 3\<close>, \<open>2 ^ 53 + 1\<close>, is rounded to \<open>2 ^ 53\<close>, which leaves the
  remainder \<open>1\<close> where the exact product leaves \<open>2\<close>, and the function returns \<open>3\<close>.
\<close>

theorem modularInverse_13_288_counterexample:
  "modularInverse 13 288 = Some 133 \<and> (221 * 13) mod 288 = (281::int) \<and>
   priv_d (snd generateAsymmetricKeyPair) = 221 \<and>
   gcd (3002399751580331::int) 9007199254740991 = 1 \<and>
   modularInverse 3002399751580331 9007199254740991 = Some 3 \<and>
   (3002399751580331 * 3) mod 9007199254740991 = (2::int)"
proof -
  have a: "modularInverse 13 288 = Some 133" by code_simp
  have "- 4503599627370494 * 3002399751580331 + 1501199875790165 * 9007199254740991 = (1::int)"
    by simp
  then have b: "gcd (3002399751580331::int) 9007199254740991 = 1" by (rule bezout_coprime)
  have c: "modularInverse 3002399751580331 9007199254740991 = Some 3" by code_simp
  from a b c show ?thesis by (simp add: generateAsymmetricKeyPair_def)
qed

text \<open>
  C1. The round trip of chapter 2 at the message of its own example: with the generated
  key pair, \<open>100\<close> encrypts to \<open>36\<close> and \<open>36\<close> decrypts to \<open>253\<close>, not \<open>100\<close>. The
  private exponent \<open>221\<close> is not the inverse of \<open>13\<close> modulo \<open>288\<close>: the product
  leaves \<open>281\<close>. (The pair of chapter 11 for the primes \<open>61\<close> and \<open>53\<close> does
  recover every message below \<open>3233\<close>: lemma \<open>rsa_chapter11_roundtrip\<close>.)
\<close>

theorem rsa_chapter2_roundtrip_fails:
  "encryptAsymmetric 100 (fst generateAsymmetricKeyPair) = Inr 36 \<and>
   decryptAsymmetric 36 (snd generateAsymmetricKeyPair) = Inr 253 \<and>
   (priv_d (snd generateAsymmetricKeyPair) * pub_e (fst generateAsymmetricKeyPair))
     mod ((17 - 1) * (19 - 1)) = 281"
  by code_simp

text \<open>
  C3. Two points of the curve on one vertical line: \<open>P = (1, 7)\<close> and \<open>Q = (1, 16)\<close>.
  The inverse of the zero denominator is taken to be \<open>0\<close>, the slope is \<open>0\<close>, and
  \<open>addPoints\<close> returns the finite point \<open>(21, 16)\<close>, which is not on the curve, instead
  of \<open>O\<close>. Doubling \<open>(4, 0)\<close>, a point of the curve with \<open>y = 0\<close>, returns \<open>(15, 0)\<close>.
\<close>

theorem addPoints_vertical_line_finite:
  "onCurve \<lparr>px = Some 1, py = Some 7\<rparr> \<and> onCurve \<lparr>px = Some 1, py = Some 16\<rparr> \<and>
   modularInverse 0 ec_p = Some 0 \<and>
   addPoints \<lparr>px = Some 1, py = Some 7\<rparr> \<lparr>px = Some 1, py = Some 16\<rparr>
     = Some \<lparr>px = Some 21, py = Some 16\<rparr> \<and>
   \<lparr>px = Some 21, py = Some 16\<rparr> \<noteq> ec_O \<and>
   \<not> onCurve \<lparr>px = Some 21, py = Some 16\<rparr> \<and>
   onCurve \<lparr>px = Some 4, py = Some 0\<rparr> \<and>
   addPoints \<lparr>px = Some 4, py = Some 0\<rparr> \<lparr>px = Some 4, py = Some 0\<rparr>
     = Some \<lparr>px = Some 15, py = Some 0\<rparr>"
  by code_simp

end
